theory Spec2Isabelle
  imports Main "HOL-Library.Word"
begin

section \<open>Data model\<close>

text \<open>
  The header \<^verbatim>\<open>memory_signature.hpp\<close> defines one class, \<^verbatim>\<open>jm::memory_signature\<close>:
  an owned buffer \<^verbatim>\<open>[_pattern, _end)\<close> of \<^verbatim>\<open>unsigned char\<close> and one byte \<^verbatim>\<open>_wildcard\<close>.
  Bytes are 8-bit words. The templates are taken at \<^verbatim>\<open>Byte = int\<close>, the type that the
  documented calls \<^verbatim>\<open>{0x11, 0x12, 0x13, 0x14}, {1, 0, 1, 1}, 0\<close> deduce; a C++ \<^verbatim>\<open>int\<close> is
  a 32-bit word. Iterators into a range are indices into a list, and \<^verbatim>\<open>last\<close> is the
  length of the list.

  A constructor either returns a signature or ends in one of three ways: the two
  exceptions the header throws (\<^verbatim>\<open>std::invalid_argument\<close> for a pattern and a mask of
  different sizes, \<^verbatim>\<open>std::range_error\<close> when no unused byte value is found) and an
  access outside an array, which C++ leaves undefined and the model reports as
  \<open>Out_of_bounds\<close>.
\<close>

type_synonym byte = "8 word"
type_synonym cint = "32 word"

datatype failure = Invalid_argument | Range_error | Out_of_bounds

record memory_signature =
  pattern :: "byte list"
  wildcard :: byte

text \<open>
  Reading \<^verbatim>\<open>*(begin + i)\<close>: defined only inside the array.
\<close>

definition deref :: "'a list \<Rightarrow> nat \<Rightarrow> failure + 'a" where
  "deref xs i = (if i < length xs then Inr (xs ! i) else Inl Out_of_bounds)"

section \<open>Wildcard resolution\<close>

text \<open>
  \<^verbatim>\<open>detail::find_wildcard(first, last, cmp)\<close> fills a \<^verbatim>\<open>std::bitset<256>\<close> with the
  assignment \<^verbatim>\<open>bits[static_cast<unsigned char>(*first)] = cmp(*first)\<close> for each element
  in turn, then returns the first index in \<^verbatim>\<open>0 .. 255\<close> whose bit is clear, and throws
  \<^verbatim>\<open>std::range_error\<close> when there is none. The comparator of the masked notation is a
  mutable closure that advances its own copy of the mask iterator at each call, so the
  comparator takes and returns that state; it fails where the mask is read outside its
  array.
\<close>

fun mark ::
  "('a \<Rightarrow> byte) \<Rightarrow> ('s \<Rightarrow> 'a \<Rightarrow> failure + bool \<times> 's) \<Rightarrow> 's \<Rightarrow> 'a list \<Rightarrow> (nat \<Rightarrow> bool)
     \<Rightarrow> failure + (nat \<Rightarrow> bool)" where
  "mark to_uchar cmp st [] bits = Inr bits"
| "mark to_uchar cmp st (x # xs) bits =
     (case cmp st x of
        Inl e \<Rightarrow> Inl e
      | Inr (v, st') \<Rightarrow> mark to_uchar cmp st' xs (bits(unat (to_uchar x) := v)))"

definition find_wildcard ::
  "('a \<Rightarrow> byte) \<Rightarrow> ('s \<Rightarrow> 'a \<Rightarrow> failure + bool \<times> 's) \<Rightarrow> 's \<Rightarrow> 'a list \<Rightarrow> failure + byte" where
  "find_wildcard to_uchar cmp st xs =
     (case mark to_uchar cmp st xs (\<lambda>i. False) of
        Inl e \<Rightarrow> Inl e
      | Inr bits \<Rightarrow>
          (case List.find (\<lambda>i. \<not> bits i) [0..<256] of
             Some i \<Rightarrow> Inr (of_nat i)
           | None \<Rightarrow> Inl Range_error))"

text \<open>
  \<^verbatim>\<open>find_wildcard_masked\<close> passes \<^verbatim>\<open>[=](auto) mutable { return *mask_first++ != unk; }\<close>,
  where \<^verbatim>\<open>unk\<close> is an \<^verbatim>\<open>unsigned char\<close> and both sides of \<^verbatim>\<open>!=\<close> are promoted to
  \<^verbatim>\<open>int\<close>. \<^verbatim>\<open>find_wildcard_hybrid\<close> passes
  \<^verbatim>\<open>[](auto b) { return !(b != ' ' && b != '?'); }\<close>.
\<close>

definition find_wildcard_masked ::
  "('a \<Rightarrow> byte) \<Rightarrow> ('m \<Rightarrow> int) \<Rightarrow> 'a list \<Rightarrow> 'm list \<Rightarrow> byte \<Rightarrow> failure + byte" where
  "find_wildcard_masked to_uchar promote pat msk unk =
     find_wildcard to_uchar
       (\<lambda>mask_first x. case deref msk mask_first of
                          Inl e \<Rightarrow> Inl e
                        | Inr m \<Rightarrow> Inr (promote m \<noteq> uint unk, mask_first + 1))
       0 pat"

definition find_wildcard_hybrid :: "string \<Rightarrow> failure + byte" where
  "find_wildcard_hybrid s =
     find_wildcard of_char
       (\<lambda>u b. Inr (\<not> (b \<noteq> CHR '' '' \<and> b \<noteq> CHR ''?''), u)) () s"

section \<open>Masked notation\<close>

text \<open>
  \<^verbatim>\<open>masked_to_wildcard\<close> writes one byte for each pattern element: the element itself
  where the mask entry differs from the unknown marker, the wildcard otherwise. Both
  masked constructors resolve the wildcard in their member initialisers, compare the two
  sizes in their body, and then call \<^verbatim>\<open>masked_to_wildcard\<close>.
\<close>

fun masked_to_wildcard ::
  "('a \<Rightarrow> byte) \<Rightarrow> ('m \<Rightarrow> int) \<Rightarrow> byte \<Rightarrow> 'a list \<Rightarrow> 'm list \<Rightarrow> nat \<Rightarrow> byte
     \<Rightarrow> failure + byte list" where
  "masked_to_wildcard to_uchar promote w [] msk m_first unknown = Inr []"
| "masked_to_wildcard to_uchar promote w (x # xs) msk m_first unknown =
     (case deref msk m_first of
        Inl e \<Rightarrow> Inl e
      | Inr m \<Rightarrow>
          (case masked_to_wildcard to_uchar promote w xs msk (m_first + 1) unknown of
             Inl e \<Rightarrow> Inl e
           | Inr rest \<Rightarrow>
               Inr ((if promote m \<noteq> uint unknown then to_uchar x else w) # rest)))"

definition memory_signature_masked ::
  "('a \<Rightarrow> byte) \<Rightarrow> ('m \<Rightarrow> int) \<Rightarrow> 'a list \<Rightarrow> 'm list \<Rightarrow> byte \<Rightarrow> failure + memory_signature" where
  "memory_signature_masked to_uchar promote pat msk unknown_byte_identifier =
     (case find_wildcard_masked to_uchar promote pat msk unknown_byte_identifier of
        Inl e \<Rightarrow> Inl e
      | Inr w \<Rightarrow>
          if length pat \<noteq> length msk then Inl Invalid_argument
          else (case masked_to_wildcard to_uchar promote w pat msk 0 unknown_byte_identifier of
                  Inl e \<Rightarrow> Inl e
                | Inr out \<Rightarrow> Inr \<lparr>pattern = out, wildcard = w\<rparr>))"

text \<open>
  The mask is a \<^verbatim>\<open>std::string\<close> in the first constructor and an
  \<^verbatim>\<open>std::initializer_list<Byte>\<close> in the second. Whether plain \<^verbatim>\<open>char\<close> is signed is
  left to the implementation, so it is a parameter.
\<close>

definition char_to_int :: "bool \<Rightarrow> char \<Rightarrow> int" where
  "char_to_int char_is_signed c =
     (if char_is_signed then sint (of_char c :: byte) else uint (of_char c :: byte))"

definition memory_signature_string_mask ::
  "bool \<Rightarrow> cint list \<Rightarrow> string \<Rightarrow> cint \<Rightarrow> failure + memory_signature" where
  "memory_signature_string_mask char_is_signed pat msk unknown_byte_identifier =
     memory_signature_masked ucast (char_to_int char_is_signed) pat msk
       (ucast unknown_byte_identifier)"

definition memory_signature_list_mask ::
  "cint list \<Rightarrow> cint list \<Rightarrow> cint \<Rightarrow> failure + memory_signature" where
  "memory_signature_list_mask pat msk unknown_byte_identifier =
     memory_signature_masked ucast sint pat msk (ucast unknown_byte_identifier)"

section \<open>Hybrid notation\<close>

text \<open>
  \<^verbatim>\<open>hybrid_to_wildcard\<close> converts the buffered token with \<^verbatim>\<open>std::strtoul(tokens, nullptr, 16)\<close>.
  The conversion follows the C standard: leading white space is skipped, a sign and a
  \<^verbatim>\<open>0x\<close> prefix are optional, the longest run of hexadecimal digits is the value, and
  the value is \<^verbatim>\<open>0\<close> when there is no digit. A minus sign negates the value in
  \<^verbatim>\<open>unsigned long\<close>; the store into an \<^verbatim>\<open>unsigned char\<close> keeps the low eight bits, so
  the byte is the integer value taken modulo 256. The buffer holds at most two
  characters, so the value never exceeds the range of \<^verbatim>\<open>unsigned long\<close>.
\<close>

definition isspace :: "char \<Rightarrow> bool" where
  "isspace c = (c = CHR '' '' \<or> (9 \<le> (of_char c :: nat) \<and> (of_char c :: nat) \<le> 13))"

definition hex_digit :: "char \<Rightarrow> nat option" where
  "hex_digit c =
     (let n = (of_char c :: nat) in
      if 48 \<le> n \<and> n \<le> 57 then Some (n - 48)
      else if 97 \<le> n \<and> n \<le> 102 then Some (n - 87)
      else if 65 \<le> n \<and> n \<le> 70 then Some (n - 55)
      else None)"

fun digits_value :: "nat \<Rightarrow> string \<Rightarrow> nat" where
  "digits_value acc [] = acc"
| "digits_value acc (c # cs) =
     (case hex_digit c of None \<Rightarrow> acc | Some d \<Rightarrow> digits_value (16 * acc + d) cs)"

definition strtoul16 :: "string \<Rightarrow> int" where
  "strtoul16 s =
     (let s1 = dropWhile isspace s;
          neg = (case s1 of [] \<Rightarrow> False | c # cs \<Rightarrow> c = CHR ''-'');
          s2 = (case s1 of [] \<Rightarrow> [] | c # cs \<Rightarrow> if c = CHR ''-'' \<or> c = CHR ''+'' then cs else s1);
          s3 = (case s2 of
                  z # x # d # cs \<Rightarrow>
                    if z = CHR ''0'' \<and> (x = CHR ''x'' \<or> x = CHR ''X'') \<and> hex_digit d \<noteq> None
                    then d # cs else s2
                | _ \<Rightarrow> s2);
          v = int (digits_value 0 s3)
      in if neg then - v else v)"

definition c_str :: "string \<Rightarrow> string" where
  "c_str buf = takeWhile (\<lambda>c. c \<noteq> CHR 0x00) buf"

text \<open>
  The loop of \<^verbatim>\<open>hybrid_to_wildcard\<close> keeps \<^verbatim>\<open>char tokens[2]\<close>, the counter
  \<^verbatim>\<open>n_tokens\<close>, the flag \<^verbatim>\<open>prev_was_wildcard\<close> and the write position \<^verbatim>\<open>my_pat\<close>
  (here the bytes written so far). A space converts and stores a pending token; a
  \<^verbatim>\<open>?\<close> stores the wildcard unless the flag is set; any other character goes to
  \<^verbatim>\<open>tokens[n_tokens++]\<close>, which is outside the array once two characters are buffered.
  The source relies on \<^verbatim>\<open>n_tokens\<close> lying right behind \<^verbatim>\<open>tokens\<close> in memory to end
  a two-character token; the model reads the buffer as ending there.
\<close>

record hybrid_state =
  tokens :: string
  n_tokens :: nat
  prev_was_wildcard :: bool
  my_pat :: "byte list"

definition hybrid_step :: "byte \<Rightarrow> hybrid_state \<Rightarrow> char \<Rightarrow> failure + hybrid_state" where
  "hybrid_step w st c =
     (if c = CHR '' '' then
        (if n_tokens st = 0 then Inr (st\<lparr>prev_was_wildcard := False\<rparr>)
         else Inr (st\<lparr>prev_was_wildcard := False,
                       n_tokens := 0,
                       my_pat := my_pat st @ [word_of_int (strtoul16 (c_str (tokens st)))],
                       tokens := (tokens st)[1 := CHR 0x00]\<rparr>))
      else if c = CHR ''?'' then
        (if \<not> prev_was_wildcard st
         then Inr (st\<lparr>my_pat := my_pat st @ [w], prev_was_wildcard := True\<rparr>)
         else Inr st)
      else if n_tokens st < 2
        then Inr (st\<lparr>tokens := (tokens st)[n_tokens st := c], n_tokens := n_tokens st + 1\<rparr>)
        else Inl Out_of_bounds)"

fun hybrid_loop :: "byte \<Rightarrow> hybrid_state \<Rightarrow> string \<Rightarrow> failure + hybrid_state" where
  "hybrid_loop w st [] = Inr st"
| "hybrid_loop w st (c # cs) =
     (case hybrid_step w st c of Inl e \<Rightarrow> Inl e | Inr st' \<Rightarrow> hybrid_loop w st' cs)"

definition hybrid_to_wildcard :: "byte \<Rightarrow> string \<Rightarrow> failure + byte list" where
  "hybrid_to_wildcard w s =
     (case hybrid_loop w \<lparr>tokens = [CHR 0x00, CHR 0x00], n_tokens = 0,
                          prev_was_wildcard = False, my_pat = []\<rparr> s of
        Inl e \<Rightarrow> Inl e
      | Inr st \<Rightarrow>
          Inr (if n_tokens st \<noteq> 0
               then my_pat st @ [word_of_int (strtoul16 (c_str (tokens st)))]
               else my_pat st))"

definition memory_signature_hybrid :: "string \<Rightarrow> failure + memory_signature" where
  "memory_signature_hybrid s =
     (case find_wildcard_hybrid s of
        Inl e \<Rightarrow> Inl e
      | Inr w \<Rightarrow>
          (case hybrid_to_wildcard w s of
             Inl e \<Rightarrow> Inl e
           | Inr out \<Rightarrow> Inr \<lparr>pattern = out, wildcard = w\<rparr>))"

section \<open>Search\<close>

text \<open>
  \<^verbatim>\<open>find\<close> returns \<^verbatim>\<open>last\<close> for an empty signature and otherwise calls
  \<^verbatim>\<open>std::search(first, last, _pattern.get(), _end, pred)\<close> with
  \<^verbatim>\<open>pred(lhs, rhs) = (lhs == rhs || rhs == wildcard)\<close>. \<^verbatim>\<open>std::search\<close> is the
  library's forward search: at each start position it compares element by element,
  returns the start position when the pattern is exhausted, returns \<^verbatim>\<open>last\<close> when the
  range is exhausted first, and moves to the next start position at a mismatch.
\<close>

datatype probe = Hit | End_of_range | Miss

function search_at ::
  "('a \<Rightarrow> 'b \<Rightarrow> bool) \<Rightarrow> 'a list \<Rightarrow> 'b list \<Rightarrow> nat \<Rightarrow> nat \<Rightarrow> failure + probe" where
  "search_at p r s it s_it =
     (if s_it = length s then Inr Hit
      else if it = length r then Inr End_of_range
      else case deref r it of
             Inl e \<Rightarrow> Inl e
           | Inr a \<Rightarrow>
               (case deref s s_it of
                  Inl e \<Rightarrow> Inl e
                | Inr b \<Rightarrow>
                    if p a b then search_at p r s (it + 1) (s_it + 1) else Inr Miss))"
  by pat_completeness auto
termination
  by (relation "measure (\<lambda>(p, r, s, it, s_it). length s - s_it)")
     (auto simp: deref_def split: if_splits)

declare search_at.simps [simp del]

function search ::
  "('a \<Rightarrow> 'b \<Rightarrow> bool) \<Rightarrow> 'a list \<Rightarrow> 'b list \<Rightarrow> nat \<Rightarrow> failure + nat" where
  "search p r s first =
     (case search_at p r s first 0 of
        Inl e \<Rightarrow> Inl e
      | Inr Hit \<Rightarrow> Inr first
      | Inr End_of_range \<Rightarrow> Inr (length r)
      | Inr Miss \<Rightarrow> search p r s (first + 1))"
  by pat_completeness auto
termination
proof (relation "measure (\<lambda>(p, r, s, first). length r - first)")
  show "wf (measure (\<lambda>(p, r, s, first). length r - first))" by simp
next
  fix p :: "'a \<Rightarrow> 'b \<Rightarrow> bool" and r :: "'a list" and s :: "'b list"
    and first :: nat and x :: probe
  assume miss: "search_at p r s first 0 = Inr x" "x = Miss"
  have "it < length r'" if "search_at p' r' s' it k = Inr Miss"
    for p' :: "'a \<Rightarrow> 'b \<Rightarrow> bool" and r' s' it k
    using that
  proof (induction p' r' s' it k rule: search_at.induct)
    case (1 p r s it s_it)
    from "1.prems" show ?case
      apply (subst (asm) search_at.simps)
      apply (auto simp: deref_def split: if_splits dest!: "1.IH"[rotated -1])
      done
  qed
  with miss have "first < length r" by blast
  then show "((p, r, s, first + 1), (p, r, s, first))
               \<in> measure (\<lambda>(p, r, s, first). length r - first)"
    by simp
qed

declare search.simps [simp del]

definition find_sig :: "memory_signature \<Rightarrow> byte list \<Rightarrow> failure + nat" where
  "find_sig sig r =
     (if pattern sig = [] then Inr (length r)
      else search (\<lambda>lhs rhs. lhs = rhs \<or> rhs = wildcard sig) r (pattern sig) 0)"

section \<open>Notions of the specification\<close>

text \<open>
  A full match of the signature at position \<open>p\<close> of the range, in the words of the
  specification: the pattern fits into the range from \<open>p\<close> on, and at each index the
  range byte equals the pattern byte or the pattern byte is the sentinel.
\<close>

definition matches_at :: "memory_signature \<Rightarrow> byte list \<Rightarrow> nat \<Rightarrow> bool" where
  "matches_at sig r p =
     (p + length (pattern sig) \<le> length r \<and>
      (\<forall>i<length (pattern sig).
         r ! (p + i) = pattern sig ! i \<or> pattern sig ! i = wildcard sig))"

definition full_match :: "('a \<Rightarrow> 'b \<Rightarrow> bool) \<Rightarrow> 'a list \<Rightarrow> 'b list \<Rightarrow> nat \<Rightarrow> bool" where
  "full_match p r s q = (q + length s \<le> length r \<and> (\<forall>j<length s. p (r ! (q + j)) (s ! j)))"

text \<open>
  The tokens of a hybrid string, in the words of the specification: the maximal runs of
  characters other than the space. \<open>split_from cur s\<close> splits \<open>s\<close> when \<open>cur\<close> is the part
  of the current token already read.
\<close>

fun split_from :: "string \<Rightarrow> string \<Rightarrow> string list" where
  "split_from cur [] = (if cur = [] then [] else [cur])"
| "split_from cur (c # cs) =
     (if c = CHR '' '' then (if cur = [] then split_from [] cs else cur # split_from [] cs)
      else split_from (cur @ [c]) cs)"

definition split_tokens :: "string \<Rightarrow> string list" where
  "split_tokens s = split_from [] s"

text \<open>
  A wildcard token is a run of one or more \<^verbatim>\<open>?\<close>; a byte token has one or two
  characters, none of them \<^verbatim>\<open>?\<close>. A wildcard token stands for the wildcard byte, any
  other token for the byte that \<^verbatim>\<open>strtoul\<close> converts it to.
\<close>

definition is_wildcard_token :: "string \<Rightarrow> bool" where
  "is_wildcard_token t = (t \<noteq> [] \<and> list_all (\<lambda>c. c = CHR ''?'') t)"

definition is_byte_token :: "string \<Rightarrow> bool" where
  "is_byte_token t = ((length t = 1 \<or> length t = 2) \<and> list_all (\<lambda>c. c \<noteq> CHR ''?'') t)"

definition token_byte :: "byte \<Rightarrow> string \<Rightarrow> byte" where
  "token_byte w t = (if is_wildcard_token t then w else word_of_int (strtoul16 (c_str t)))"

definition token_ok :: "string \<Rightarrow> bool" where
  "token_ok t = (is_wildcard_token t \<or> is_byte_token t)"

definition well_formed :: "string \<Rightarrow> bool" where
  "well_formed s = list_all token_ok (split_tokens s)"

text \<open>
  A string fits the two-character buffer when no token has more than two characters
  other than \<^verbatim>\<open>?\<close>.
\<close>

definition tokens_fit :: "string \<Rightarrow> bool" where
  "tokens_fit s = list_all (\<lambda>t. length (filter (\<lambda>c. c \<noteq> CHR ''?'') t) \<le> 2) (split_tokens s)"

text \<open>
  The resolver of the hybrid notation as the specification describes it: every byte of
  the raw string other than the space and \<^verbatim>\<open>?\<close> is forbidden, and the sentinel is the
  smallest value in \<^verbatim>\<open>0 .. 255\<close> that is not forbidden.
\<close>

definition spec_hybrid_sentinel :: "string \<Rightarrow> byte option" where
  "spec_hybrid_sentinel s =
     map_option of_nat
       (List.find
          (\<lambda>i. i \<notin> set (map (\<lambda>c. of_char c)
                           (filter (\<lambda>c. c \<noteq> CHR '' '' \<and> c \<noteq> CHR ''?'') s)))
          [0..<256])"

section \<open>Auxiliary notions for the parser's invariant\<close>

text \<open>
  \<open>tracks cur st\<close> relates the loop state to the part \<open>cur\<close> of the current token that
  has been read; \<open>pending cur s\<close> are the tokens whose byte is still to be written;
  \<open>flushed st\<close> is the buffer after the conversion that follows the loop.
\<close>

definition tracks :: "string \<Rightarrow> hybrid_state \<Rightarrow> bool" where
  "tracks cur st =
     (length (tokens st) = 2 \<and>
      (if cur = [] then n_tokens st = 0 \<and> \<not> prev_was_wildcard st \<and> tokens st ! 1 = CHR 0x00
       else if is_wildcard_token cur
         then n_tokens st = 0 \<and> prev_was_wildcard st \<and> tokens st ! 1 = CHR 0x00
       else n_tokens st = length cur \<and> \<not> prev_was_wildcard st \<and>
            take (length cur) (tokens st) = cur \<and>
            (length cur = 1 \<longrightarrow> tokens st ! 1 = CHR 0x00)))"

definition pending :: "string \<Rightarrow> string \<Rightarrow> string list" where
  "pending cur s = (if is_wildcard_token cur then tl (split_from cur s) else split_from cur s)"

definition flushed :: "hybrid_state \<Rightarrow> byte list" where
  "flushed st = (if n_tokens st \<noteq> 0
               then my_pat st @ [word_of_int (strtoul16 (c_str (tokens st)))]
               else my_pat st)"

section \<open>Properties of the search\<close>

lemma search_at_Miss_less:
  "search_at p r s it s_it = Inr Miss \<Longrightarrow> it < length r"
proof (induction p r s it s_it rule: search_at.induct)
  case (1 p r s it s_it)
  from "1.prems" show ?case
    apply (subst (asm) search_at.simps)
    apply (auto simp: deref_def split: if_splits dest!: "1.IH"[rotated -1])
    done
qed

lemma search_at_total:
  "s_it \<le> length s \<Longrightarrow> it \<le> length r \<Longrightarrow> \<exists>x. search_at p r s it s_it = Inr x"
proof (induction p r s it s_it rule: search_at.induct)
  case (1 p r s it s_it)
  show ?case
  proof (cases "s_it = length s \<or> it = length r")
    case True
    then show ?thesis by (subst search_at.simps) auto
  next
    case False
    with "1.prems" have lt: "s_it < length s" "it < length r" by auto
    show ?thesis
    proof (cases "p (r ! it) (s ! s_it)")
      case True
      have "\<exists>x. search_at p r s (it + 1) (s_it + 1) = Inr x"
        using lt True by (intro "1.IH") (auto simp: deref_def)
      then show ?thesis using lt True by (subst search_at.simps) (simp add: deref_def)
    next
      case False
      then show ?thesis using lt by (subst search_at.simps) (simp add: deref_def)
    qed
  qed
qed

lemma search_at_Hit_iff:
  "s_it \<le> length s \<Longrightarrow> it \<le> length r \<Longrightarrow>
   (search_at p r s it s_it = Inr Hit) =
   (it + (length s - s_it) \<le> length r \<and>
    (\<forall>j<length s - s_it. p (r ! (it + j)) (s ! (s_it + j))))"
proof (induction p r s it s_it rule: search_at.induct)
  case (1 p r s it s_it)
  show ?case
  proof (cases "s_it = length s")
    case True
    then show ?thesis using "1.prems" by (subst search_at.simps) simp
  next
    case ns: False
    with "1.prems" have lts: "s_it < length s" by simp
    show ?thesis
    proof (cases "it = length r")
      case True
      then show ?thesis using lts by (subst search_at.simps) simp
    next
      case False
      with "1.prems" have ltr: "it < length r" by simp
      show ?thesis
      proof (cases "p (r ! it) (s ! s_it)")
        case True
        have IH: "(search_at p r s (it + 1) (s_it + 1) = Inr Hit) =
           (it + 1 + (length s - (s_it + 1)) \<le> length r \<and>
            (\<forall>j<length s - (s_it + 1). p (r ! (it + 1 + j)) (s ! (s_it + 1 + j))))"
          using lts ltr True by (intro "1.IH") (auto simp: deref_def)
        have step: "search_at p r s it s_it = search_at p r s (it + 1) (s_it + 1)"
          using lts ltr True by (subst search_at.simps) (simp add: deref_def)
        have "(\<forall>j<length s - s_it. p (r ! (it + j)) (s ! (s_it + j))) =
              (\<forall>j<length s - (s_it + 1). p (r ! (it + 1 + j)) (s ! (s_it + 1 + j)))"
        proof
          assume a: "\<forall>j<length s - s_it. p (r ! (it + j)) (s ! (s_it + j))"
          show "\<forall>j<length s - (s_it + 1). p (r ! (it + 1 + j)) (s ! (s_it + 1 + j))"
          proof (intro allI impI)
            fix j assume "j < length s - (s_it + 1)"
            then have "Suc j < length s - s_it" by simp
            with a have "p (r ! (it + Suc j)) (s ! (s_it + Suc j))" by blast
            then show "p (r ! (it + 1 + j)) (s ! (s_it + 1 + j))" by simp
          qed
        next
          assume a: "\<forall>j<length s - (s_it + 1). p (r ! (it + 1 + j)) (s ! (s_it + 1 + j))"
          show "\<forall>j<length s - s_it. p (r ! (it + j)) (s ! (s_it + j))"
          proof (intro allI impI)
            fix j assume j: "j < length s - s_it"
            show "p (r ! (it + j)) (s ! (s_it + j))"
            proof (cases j)
              case 0
              then show ?thesis using True by simp
            next
              case (Suc k)
              with j have "k < length s - (s_it + 1)" by simp
              with a have "p (r ! (it + 1 + k)) (s ! (s_it + 1 + k))" by blast
              then show ?thesis using Suc by simp
            qed
          qed
        qed
        moreover have "(it + (length s - s_it) \<le> length r) =
                       (it + 1 + (length s - (s_it + 1)) \<le> length r)"
          using lts by arith
        ultimately show ?thesis using step IH by simp
      next
        case False
        have "search_at p r s it s_it = Inr Miss"
          using lts ltr False by (subst search_at.simps) (simp add: deref_def)
        moreover have "\<not> (\<forall>j<length s - s_it. p (r ! (it + j)) (s ! (s_it + j)))"
          using False lts by (auto intro!: exI[of _ 0])
        ultimately show ?thesis by simp
      qed
    qed
  qed
qed

lemma search_at_End_short:
  "search_at p r s it s_it = Inr End_of_range \<Longrightarrow> s_it \<le> length s \<Longrightarrow>
   length r < it + (length s - s_it)"
proof (induction p r s it s_it rule: search_at.induct)
  case (1 p r s it s_it)
  show ?case
  proof (cases "s_it = length s")
    case True
    then show ?thesis using "1.prems" by (subst (asm) search_at.simps) simp
  next
    case ns: False
    with "1.prems" have lts: "s_it < length s" by simp
    show ?thesis
    proof (cases "it = length r")
      case True
      then show ?thesis using lts by simp
    next
      case nr: False
      from "1.prems"(1) ns nr obtain a b where
        d: "deref r it = Inr a" "deref s s_it = Inr b" "p a b"
        and rec: "search_at p r s (it + 1) (s_it + 1) = Inr End_of_range"
        by (subst (asm) search_at.simps) (auto split: sum.splits if_splits)
      have "length r < it + 1 + (length s - (s_it + 1))"
        using ns nr d rec lts by (intro "1.IH") auto
      then show ?thesis using lts by simp
    qed
  qed
qed

lemma search_first_match:
  "s \<noteq> [] \<Longrightarrow> first \<le> length r \<Longrightarrow>
   \<exists>q. search p r s first = Inr q \<and> first \<le> q \<and>
       (if \<exists>q'\<ge>first. full_match p r s q'
        then full_match p r s q \<and> (\<forall>q'. first \<le> q' \<and> q' < q \<longrightarrow> \<not> full_match p r s q')
        else q = length r)"
proof (induction p r s first rule: search.induct)
  case (1 p r s first)
  have hit: "(search_at p r s first 0 = Inr Hit) = full_match p r s first"
    using search_at_Hit_iff[of 0 s first r p] "1.prems" by (simp add: full_match_def)
  obtain x where x: "search_at p r s first 0 = Inr x"
    using search_at_total[of 0 s first r p] "1.prems" by auto
  show ?case
  proof (cases x)
    case Hit
    with x hit have fm: "full_match p r s first" by simp
    have "search p r s first = Inr first"
      using x Hit by (subst search.simps) simp
    moreover have "\<exists>q'\<ge>first. full_match p r s q'" using fm by blast
    moreover have "\<forall>q'. first \<le> q' \<and> q' < first \<longrightarrow> \<not> full_match p r s q'" by auto
    ultimately show ?thesis using fm
      by (intro exI[of _ first]) (simp only: if_True le_refl simp_thms)
  next
    case End_of_range
    with x have short: "length r < first + length s"
      using search_at_End_short[of p r s first 0] by simp
    have "\<not> full_match p r s q'" if "first \<le> q'" for q'
    proof -
      have "\<not> q' + length s \<le> length r"
        using that short by arith
      then show ?thesis by (simp only: full_match_def simp_thms)
    qed
    then have "\<not> (\<exists>q'\<ge>first. full_match p r s q')"
      by blast
    moreover have "search p r s first = Inr (length r)"
      using x End_of_range by (subst search.simps) simp
    ultimately show ?thesis using "1.prems"(2)
      by (intro exI[of _ "length r"]) (simp only: if_False simp_thms)
  next
    case Miss
    with x hit have nf: "\<not> full_match p r s first" by simp
    from x Miss have lt: "first < length r" by (auto dest: search_at_Miss_less)
    have step: "search p r s first = search p r s (first + 1)"
      using x Miss by (subst search.simps) simp
    have "\<exists>q. search p r s (first + 1) = Inr q \<and> first + 1 \<le> q \<and>
      (if \<exists>q'\<ge>first + 1. full_match p r s q'
        then full_match p r s q \<and>
             (\<forall>q'. first + 1 \<le> q' \<and> q' < q \<longrightarrow> \<not> full_match p r s q')
        else q = length r)"
    proof (rule "1.IH")
      show "search_at p r s first 0 = Inr Miss" using x Miss by simp
      show "Miss = Miss" ..
      show "s \<noteq> []" by (rule "1.prems"(1))
      show "first + 1 \<le> length r" using lt by simp
    qed
    then obtain q where q: "search p r s (first + 1) = Inr q" "first + 1 \<le> q"
      "(if \<exists>q'\<ge>first + 1. full_match p r s q'
        then full_match p r s q \<and>
             (\<forall>q'. first + 1 \<le> q' \<and> q' < q \<longrightarrow> \<not> full_match p r s q')
        else q = length r)"
      by blast
    have ex: "(\<exists>q'\<ge>first. full_match p r s q') = (\<exists>q'\<ge>first + 1. full_match p r s q')"
    proof -
      have "(first \<le> q') = (first + 1 \<le> q')" if "full_match p r s q'" for q'
        using nf that by (cases "q' = first") auto
      then show ?thesis by blast
    qed
    have mn: "\<And>q'. (first \<le> q' \<and> q' < q \<longrightarrow> \<not> full_match p r s q') =
                   (first + 1 \<le> q' \<and> q' < q \<longrightarrow> \<not> full_match p r s q')"
    proof -
      fix q'
      show "(first \<le> q' \<and> q' < q \<longrightarrow> \<not> full_match p r s q') =
                   (first + 1 \<le> q' \<and> q' < q \<longrightarrow> \<not> full_match p r s q')"
        using nf by (cases "q' = first") auto
    qed
    from q(2) have le: "first \<le> q" by simp
    have c: "(if \<exists>q'\<ge>first. full_match p r s q'
        then full_match p r s q \<and>
             (\<forall>q'. first \<le> q' \<and> q' < q \<longrightarrow> \<not> full_match p r s q')
        else q = length r)"
      using q(3) unfolding ex mn .
    from q(1) step have "search p r s first = Inr q" by simp
    with c le show ?thesis by blast
  qed
qed

text \<open>
  Claim C1: for a signature with a non-empty pattern and any byte range, \<open>find\<close> returns
  the lowest position at which the whole pattern matches, where a range byte matches a
  pattern byte when the two are equal or the pattern byte is the sentinel (a sentinel
  in the range is no wildcard); when no position matches, or the range is shorter than
  the pattern, it returns \<open>last\<close>. The search ends with a position and never with a read
  outside the range.
\<close>

theorem find_first_match:
  assumes "pattern sig \<noteq> []"
  shows "\<exists>p. find_sig sig r = Inr p \<and>
           (if \<exists>q. matches_at sig r q
            then matches_at sig r p \<and> (\<forall>q<p. \<not> matches_at sig r q)
            else p = length r)"
proof -
  define P where "P = (\<lambda>lhs rhs :: byte. lhs = rhs \<or> rhs = wildcard sig)"
  have m: "matches_at sig r q = full_match P r (pattern sig) q" for q
    by (simp add: matches_at_def full_match_def P_def)
  have f: "find_sig sig r = search P r (pattern sig) 0"
    using assms by (simp add: find_sig_def P_def)
  have "\<exists>q. search P r (pattern sig) 0 = Inr q \<and> 0 \<le> q \<and>
       (if \<exists>q'\<ge>0. full_match P r (pattern sig) q'
        then full_match P r (pattern sig) q \<and>
             (\<forall>q'. 0 \<le> q' \<and> q' < q \<longrightarrow> \<not> full_match P r (pattern sig) q')
        else q = length r)"
    using assms by (intro search_first_match) simp_all
  then obtain q where q1: "search P r (pattern sig) 0 = Inr q"
    and q2: "if \<exists>q'\<ge>0. full_match P r (pattern sig) q'
        then full_match P r (pattern sig) q \<and>
             (\<forall>q'. 0 \<le> q' \<and> q' < q \<longrightarrow> \<not> full_match P r (pattern sig) q')
        else q = length r"
    by blast
  have "if \<exists>q'. matches_at sig r q'
        then matches_at sig r q \<and> (\<forall>q'<q. \<not> matches_at sig r q')
        else q = length r"
  proof (cases "\<exists>q'. matches_at sig r q'")
    case True
    then have "\<exists>q'\<ge>0. full_match P r (pattern sig) q'" by (simp add: m)
    with q2 have "full_match P r (pattern sig) q \<and>
             (\<forall>q'. 0 \<le> q' \<and> q' < q \<longrightarrow> \<not> full_match P r (pattern sig) q')"
      by (simp only: if_True, blast)
    then have "matches_at sig r q \<and> (\<forall>q'<q. \<not> matches_at sig r q')"
      by (simp add: m)
    with True show ?thesis by (simp only: if_True, blast)
  next
    case False
    then have "\<not> (\<exists>q'\<ge>0. full_match P r (pattern sig) q')" by (simp add: m)
    with q2 have "q = length r" by (simp only: if_False)
    with False show ?thesis by (simp only: if_False)
  qed
  with q1 f show ?thesis by (intro exI[of _ q]) (simp only: simp_thms)
qed

theorem find_first_match_witness:
  "pattern \<lparr>pattern = [1, 0, 3], wildcard = 0\<rparr> \<noteq> [] \<and>
   find_sig \<lparr>pattern = [1, 0, 3], wildcard = 0\<rparr> [9, 1, 0, 1, 7, 3, 4] = Inr 3 \<and>
   (\<exists>p. find_sig \<lparr>pattern = [1, 0, 3], wildcard = 0\<rparr> [9, 1, 0, 1, 7, 3, 4] = Inr p \<and>
     (if \<exists>q. matches_at \<lparr>pattern = [1, 0, 3], wildcard = 0\<rparr> [9, 1, 0, 1, 7, 3, 4] q
      then matches_at \<lparr>pattern = [1, 0, 3], wildcard = 0\<rparr> [9, 1, 0, 1, 7, 3, 4] p \<and>
           (\<forall>q<p. \<not> matches_at \<lparr>pattern = [1, 0, 3], wildcard = 0\<rparr> [9, 1, 0, 1, 7, 3, 4] q)
      else p = length [9, 1, 0, 1, 7, 3, 4 :: byte]))"
proof -
  have h: "pattern \<lparr>pattern = [1, 0, 3], wildcard = 0\<rparr> \<noteq> []" by simp
  have v: "find_sig \<lparr>pattern = [1, 0, 3], wildcard = 0\<rparr> [9, 1, 0, 1, 7, 3, 4] = Inr 3"
    by code_simp
  from h v find_first_match[OF h, of "[9, 1, 0, 1, 7, 3, 4]"] show ?thesis
    by (intro conjI)
qed

text \<open>
  Claim C8: for a signature with an empty pattern and any byte range, the empty range
  included, \<open>find\<close> returns \<open>last\<close>, never a zero-length match at a position.
\<close>

theorem find_empty_pattern:
  "pattern sig = [] \<Longrightarrow> find_sig sig r = Inr (length r)"
  by (simp add: find_sig_def)

theorem find_empty_pattern_witness:
  "pattern \<lparr>pattern = [], wildcard = 0\<rparr> = [] \<and>
   find_sig \<lparr>pattern = [], wildcard = 0\<rparr> [] = Inr (length ([] :: byte list)) \<and>
   find_sig \<lparr>pattern = [], wildcard = 0\<rparr> [7, 8] = Inr (length [7, 8 :: byte])"
proof -
  have h: "pattern \<lparr>pattern = [], wildcard = 0\<rparr> = []" by simp
  show ?thesis
    using h find_empty_pattern[OF h, of "[]"] find_empty_pattern[OF h, of "[7, 8]"]
    by (intro conjI)
qed

section \<open>Properties of the wildcard resolution\<close>

lemma mark_hybrid_zero:
  "\<not> bits 0 \<Longrightarrow>
   \<exists>bits'. mark (of_char :: char \<Rightarrow> byte)
              (\<lambda>u b. Inr (\<not> (b \<noteq> CHR '' '' \<and> b \<noteq> CHR ''?''), u)) () s bits = Inr bits'
          \<and> \<not> bits' 0"
proof (induction s arbitrary: bits)
  case Nil
  then show ?case by simp
next
  case (Cons c cs)
  let ?bits = "bits(unat (of_char c :: byte) := \<not> (c \<noteq> CHR '' '' \<and> c \<noteq> CHR ''?''))"
  have z: "unat (of_char c :: byte) = 0 \<Longrightarrow> c \<noteq> CHR '' '' \<and> c \<noteq> CHR ''?''"
    by auto
  have "\<not> ?bits 0"
    using Cons.prems z by (cases "unat (of_char c :: byte) = 0") auto
  then have "\<exists>bits'. mark (of_char :: char \<Rightarrow> byte)
              (\<lambda>u b. Inr (\<not> (b \<noteq> CHR '' '' \<and> b \<noteq> CHR ''?''), u)) () cs ?bits = Inr bits'
          \<and> \<not> bits' 0"
    by (rule Cons.IH)
  then show ?case by simp
qed

lemma find_first_clear: "\<not> bits (0::nat) \<Longrightarrow> List.find (\<lambda>i. \<not> bits i) [0..<256] = Some 0"
  by (subst upt_conv_Cons) simp_all

lemma hybrid_step_fails: "hybrid_step w st c = Inl e \<Longrightarrow> e = Out_of_bounds"
  by (auto simp: hybrid_step_def split: if_splits)

lemma hybrid_loop_fails: "hybrid_loop w st s = Inl e \<Longrightarrow> e = Out_of_bounds"
  by (induction s arbitrary: st) (auto split: sum.splits dest: hybrid_step_fails)

lemma find_wildcard_hybrid_zero: "find_wildcard_hybrid s = Inr 0"
proof -
  obtain bits' where b: "mark (of_char :: char \<Rightarrow> byte)
              (\<lambda>u b. Inr (\<not> (b \<noteq> CHR '' '' \<and> b \<noteq> CHR ''?''), u)) () s (\<lambda>i. False) = Inr bits'"
     "\<not> bits' 0"
    using mark_hybrid_zero[of "\<lambda>i. False" s] by auto
  show ?thesis
    using b find_first_clear[of bits'] by (simp add: find_wildcard_hybrid_def find_wildcard_def)
qed

text \<open>
  Claim C10: for every hybrid string the resolution never fails, so the
  \<^verbatim>\<open>std::range_error\<close> branch cannot be reached from the hybrid constructor, and the
  resolved sentinel is the byte \<open>0\<close>: the comparator sets a bit only for a space or a
  \<^verbatim>\<open>?\<close>, and neither is the byte \<open>0\<close>.
\<close>

theorem hybrid_wildcard_zero:
  "find_wildcard_hybrid s = Inr 0 \<and> memory_signature_hybrid s \<noteq> Inl Range_error"
proof -
  have w: "find_wildcard_hybrid s = Inr 0" by (rule find_wildcard_hybrid_zero)
  have "hybrid_to_wildcard 0 s \<noteq> Inl Range_error"
    by (auto simp: hybrid_to_wildcard_def split: sum.splits dest: hybrid_loop_fails)
  then have "memory_signature_hybrid s \<noteq> Inl Range_error"
    using w by (auto simp: memory_signature_hybrid_def split: sum.splits)
  with w show ?thesis by simp
qed

text \<open>
  Claim C4: for a hybrid string the resolver scans the raw bytes and forbids every byte
  value that occurs outside the space and \<^verbatim>\<open>?\<close>; the sentinel is the smallest value
  not forbidden. On the one-character string that holds the byte \<open>0\<close> this gives the
  sentinel \<open>1\<close>; the header returns \<open>0\<close>, because its comparator is the negation of
  the test for such a byte.
\<close>

theorem hybrid_resolver_marks_separators_only:
  "find_wildcard_hybrid [CHR 0x00] = Inr 0 \<and> spec_hybrid_sentinel [CHR 0x00] = Some 1"
  by (intro conjI; code_simp)

text \<open>
  Claim C2: after a successful construction from the masked or the hybrid notation the
  sentinel is not among the literal bytes of the stored pattern. With bytes
  \<^verbatim>\<open>{0x00, 0x00}\<close>, mask \<^verbatim>\<open>{1, 0}\<close> and unknown marker \<open>0\<close>, or mask \<^verbatim>\<open>"x?"\<close> and
  unknown marker \<^verbatim>\<open>'?'\<close>, the second element clears the bit that the first one set;
  with the text \<^verbatim>\<open>00 ??\<close> no bit of a literal is ever
  set. Both signatures store the literal \<open>0x00\<close> next to the sentinel \<open>0x00\<close>, and
  match a range that does not start with \<open>0x00\<close>.
\<close>

theorem sentinel_equals_literal:
  "memory_signature_list_mask [0x00, 0x00] [1, 0] 0
     = Inr \<lparr>pattern = [0x00, 0x00], wildcard = 0x00\<rparr> \<and>
   memory_signature_string_mask True [0x00, 0x00] ''x?'' 0x3F
     = Inr \<lparr>pattern = [0x00, 0x00], wildcard = 0x00\<rparr> \<and>
   memory_signature_string_mask False [0x00, 0x00] ''x?'' 0x3F
     = Inr \<lparr>pattern = [0x00, 0x00], wildcard = 0x00\<rparr> \<and>
   memory_signature_hybrid ''00 ??'' = Inr \<lparr>pattern = [0x00, 0x00], wildcard = 0x00\<rparr> \<and>
   find_sig \<lparr>pattern = [0x00, 0x00], wildcard = 0x00\<rparr> [0x55, 0x66] = Inr 0"
  by (intro conjI; code_simp)

text \<open>
  When the mask has an entry for every pattern element, no read of the mask is out of
  bounds: a masked construction from a pattern and a mask of equal length either finds
  no unused byte value or returns a signature as long as the pattern.
\<close>

lemma mark_masked_in_bounds:
  "k + length pat \<le> length msk \<Longrightarrow>
   \<exists>bits'. mark to_uchar
      (\<lambda>mask_first x. case deref msk mask_first of
                          Inl e \<Rightarrow> Inl e
                        | Inr m \<Rightarrow> Inr (promote m \<noteq> uint unk, mask_first + 1))
      k pat bits = Inr bits'"
proof (induction pat arbitrary: k bits)
  case Nil
  then show ?case by simp
next
  case (Cons x xs)
  then have "k < length msk" "(k + 1) + length xs \<le> length msk" by simp_all
  with Cons.IH[of "k + 1"] show ?case by (simp add: deref_def)
qed

lemma masked_to_wildcard_in_bounds:
  "k + length pat \<le> length msk \<Longrightarrow>
   \<exists>out. masked_to_wildcard to_uchar promote w pat msk k unknown = Inr out \<and>
         length out = length pat"
proof (induction pat arbitrary: k)
  case Nil
  then show ?case by simp
next
  case (Cons x xs)
  then have "k < length msk" "(k + 1) + length xs \<le> length msk" by simp_all
  with Cons.IH[of "k + 1"] show ?case by (auto simp: deref_def)
qed

lemma masked_equal_lengths:
  assumes "length pat = length msk"
  shows "memory_signature_masked to_uchar promote pat msk unk = Inl Range_error \<or>
         (\<exists>sig. memory_signature_masked to_uchar promote pat msk unk = Inr sig \<and>
                length (pattern sig) = length pat)"
proof -
  obtain bits' where "mark to_uchar
      (\<lambda>mask_first x. case deref msk mask_first of
                          Inl e \<Rightarrow> Inl e
                        | Inr m \<Rightarrow> Inr (promote m \<noteq> uint unk, mask_first + 1))
      0 pat (\<lambda>i. False) = Inr bits'"
    using mark_masked_in_bounds[of 0 pat msk to_uchar promote unk "\<lambda>i. False"] assms by auto
  then have fw: "find_wildcard_masked to_uchar promote pat msk unk = Inl Range_error \<or>
             (\<exists>w. find_wildcard_masked to_uchar promote pat msk unk = Inr w)"
    by (auto simp: find_wildcard_masked_def find_wildcard_def split: option.splits)
  show ?thesis
  proof (cases "find_wildcard_masked to_uchar promote pat msk unk = Inl Range_error")
    case True
    then show ?thesis by (simp add: memory_signature_masked_def)
  next
    case False
    with fw obtain w where w: "find_wildcard_masked to_uchar promote pat msk unk = Inr w" by auto
    obtain out where "masked_to_wildcard to_uchar promote w pat msk 0 unk = Inr out"
      "length out = length pat"
      using masked_to_wildcard_in_bounds[of 0 pat msk to_uchar promote w unk] assms by auto
    with w assms show ?thesis by (simp add: memory_signature_masked_def)
  qed
qed

text \<open>
  Claim C6: a masked construction with a pattern and a mask of different lengths fails
  with the length error before anything else happens, and reads no mask element beyond
  the mask's length. With a pattern of four elements and a mask of three the resolver,
  which runs in the member initialisers before the sizes are compared, reads the fourth
  mask element.
\<close>

theorem mask_read_before_size_check:
  "memory_signature_list_mask [0x11, 0x12, 0x13, 0x14] [1, 0, 1] 0 = Inl Out_of_bounds"
  by code_simp

text \<open>
  When every position is a literal, each element sets its bit and none is cleared; a
  pattern of literals that covers all byte values leaves no bit clear.
\<close>

lemma mark_all_literal:
  "k + length pat \<le> length msk \<Longrightarrow>
   \<forall>i<length pat. promote (msk ! (k + i)) \<noteq> uint unk \<Longrightarrow>
   mark to_uchar
      (\<lambda>mask_first x. case deref msk mask_first of
                          Inl e \<Rightarrow> Inl e
                        | Inr m \<Rightarrow> Inr (promote m \<noteq> uint unk, mask_first + 1))
      k pat bits = Inr (\<lambda>i. bits i \<or> i \<in> (\<lambda>x. unat (to_uchar x)) ` set pat)"
proof (induction pat arbitrary: k bits)
  case Nil
  then show ?case by simp
next
  case (Cons x xs)
  from Cons.prems(1) have k: "k < length msk" "(k + 1) + length xs \<le> length msk" by simp_all
  from Cons.prems(2) have h: "promote (msk ! k) \<noteq> uint unk" by force
  have t: "\<forall>i<length xs. promote (msk ! ((k + 1) + i)) \<noteq> uint unk"
  proof (intro allI impI)
    fix i assume "i < length xs"
    then have "Suc i < length (x # xs)" by simp
    with Cons.prems(2) have "promote (msk ! (k + Suc i)) \<noteq> uint unk" by blast
    then show "promote (msk ! ((k + 1) + i)) \<noteq> uint unk" by simp
  qed
  let ?cmp = "\<lambda>mask_first x. case deref msk mask_first of
                          Inl e \<Rightarrow> Inl e
                        | Inr m \<Rightarrow> Inr (promote m \<noteq> uint unk, mask_first + 1)"
  let ?bits = "bits(unat (to_uchar x) := True)"
  have eq: "(\<lambda>i. ?bits i \<or> i \<in> (\<lambda>x. unat (to_uchar x)) ` set xs)
        = (\<lambda>i. bits i \<or> i \<in> (\<lambda>x. unat (to_uchar x)) ` set (x # xs))"
    by (rule ext) auto
  have step: "mark to_uchar ?cmp k (x # xs) bits = mark to_uchar ?cmp (k + 1) xs ?bits"
    using k(1) h by (simp add: deref_def)
  have ih: "mark to_uchar ?cmp (k + 1) xs ?bits
              = Inr (\<lambda>i. ?bits i \<or> i \<in> (\<lambda>x. unat (to_uchar x)) ` set xs)"
    by (rule Cons.IH[OF k(2) t])
  show ?case by (simp only: step ih eq)
qed

lemma masked_all_literal_full_cover:
  assumes "length pat \<le> length msk"
    and "\<forall>i<length pat. promote (msk ! i) \<noteq> uint unk"
    and "to_uchar ` set pat = UNIV"
  shows "memory_signature_masked to_uchar promote pat msk unk = Inl Range_error"
proof -
  let ?bits = "\<lambda>i. False \<or> i \<in> (\<lambda>x. unat (to_uchar x)) ` set pat"
  have m: "mark to_uchar
      (\<lambda>mask_first x. case deref msk mask_first of
                          Inl e \<Rightarrow> Inl e
                        | Inr m \<Rightarrow> Inr (promote m \<noteq> uint unk, mask_first + 1))
      0 pat (\<lambda>i. False) = Inr ?bits"
    using assms(1,2) by (intro mark_all_literal) simp_all
  have "?bits i" if "i < 256" for i
  proof -
    have "(of_nat i :: byte) \<in> to_uchar ` set pat" using assms(3) by simp
    then obtain x where x: "x \<in> set pat" "to_uchar x = of_nat i" by auto
    have "unat (of_nat i :: byte) = i" using that by (simp add: unat_of_nat)
    with x show ?thesis by force
  qed
  then have "List.find (\<lambda>i. \<not> ?bits i) [0..<256] = None"
    by (simp add: find_None_iff)
  with m show ?thesis
    by (simp add: memory_signature_masked_def find_wildcard_masked_def find_wildcard_def)
qed

lemma ucast_down_up: "(ucast (ucast b :: cint) :: byte) = b" for b :: byte
  by (simp add: word_unat_eq_iff unsigned_ucast_eq take_bit_nat_eq_self_iff take_bit_word_eq_self
        order_less_trans[OF unsigned_less[of b, where ?'a = nat]])

lemma all_bytes_listed: "(ucast :: cint \<Rightarrow> byte) ` set (map of_nat [0..<256]) = UNIV"
proof -
  have "b \<in> (ucast :: cint \<Rightarrow> byte) ` set (map of_nat [0..<256])" for b :: byte
  proof -
    have lt: "unat b < 256" using unsigned_less[of b, where ?'a = nat] by simp
    have "(ucast (of_nat (unat b) :: cint) :: byte) = b"
      by (simp add: ucast_down_up)
    moreover have "(of_nat (unat b) :: cint) \<in> set (map of_nat [0..<256])"
      using lt by (simp only: set_map set_upt) (rule imageI, simp)
    ultimately show ?thesis by (metis imageI)
  qed
  then show ?thesis by blast
qed

text \<open>
  Claim C7: a construction whose literal bytes cover all 256 byte values fails with the
  resolution error. The header does so for the 256 values as literals alone; with one
  more element, a \<open>0\<close> at a wildcard position, the last assignment clears bit \<open>0\<close> and
  the construction returns a signature whose sentinel is the literal \<open>0\<close>.
\<close>

theorem full_cover_not_rejected:
  "memory_signature_list_mask (map of_nat [0..<256]) (replicate 256 1) 0 = Inl Range_error \<and>
   memory_signature_list_mask (map of_nat [0..<256] @ [0]) (replicate 256 1 @ [0]) 0
     = Inr \<lparr>pattern = map of_nat [0..<256] @ [0], wildcard = 0\<rparr>"
proof (intro conjI)
  show "memory_signature_list_mask (map of_nat [0..<256]) (replicate 256 1) 0 = Inl Range_error"
    unfolding memory_signature_list_mask_def
  proof (rule masked_all_literal_full_cover)
    show "length (map of_nat [0..<256] :: cint list) \<le> length (replicate 256 (1 :: cint))"
      by simp
    show "\<forall>i<length (map of_nat [0..<256] :: cint list).
            sint (replicate 256 (1 :: cint) ! i) \<noteq> uint (ucast (0 :: cint) :: byte)"
      by simp
    show "(ucast :: cint \<Rightarrow> byte) ` set (map of_nat [0..<256]) = UNIV"
      by (rule all_bytes_listed)
  qed
  show "memory_signature_list_mask (map of_nat [0..<256] @ [0]) (replicate 256 1 @ [0]) 0
     = Inr \<lparr>pattern = map of_nat [0..<256] @ [0], wildcard = 0\<rparr>"
    by code_simp
qed

text \<open>
  Claim C9: the signature built from the hybrid text \<^verbatim>\<open>01 ?? 13 14\<close> and the one built
  from the bytes \<^verbatim>\<open>{0x01, 0x00, 0x13, 0x14}\<close> with mask \<^verbatim>\<open>{1, 0, 1, 1}\<close> and unknown
  marker \<open>0\<close> give the same result of \<open>find\<close> on every byte range.
\<close>

theorem hybrid_masked_roundtrip:
  "\<exists>h m. memory_signature_hybrid ''01 ?? 13 14'' = Inr h \<and>
         memory_signature_list_mask [0x01, 0x00, 0x13, 0x14] [1, 0, 1, 1] 0 = Inr m \<and>
         (\<forall>r. find_sig h r = find_sig m r)"
proof -
  have h: "memory_signature_hybrid ''01 ?? 13 14''
             = Inr \<lparr>pattern = [1, 0, 0x13, 0x14], wildcard = 0\<rparr>"
    by code_simp
  have m: "memory_signature_list_mask [0x01, 0x00, 0x13, 0x14] [1, 0, 1, 1] 0
             = Inr \<lparr>pattern = [1, 0, 0x13, 0x14], wildcard = 0\<rparr>"
    by code_simp
  show ?thesis unfolding h m by blast
qed

section \<open>Properties of the hybrid parser\<close>

text \<open>
  The constructor allocates \<^verbatim>\<open>pattern.size()\<close> bytes for the buffer. Every write through
  \<^verbatim>\<open>my_pat\<close> follows the read of a character of its own, so the parser never writes
  more bytes than the string has characters.
\<close>

lemma hybrid_step_writes:
  "hybrid_step w st c = Inr st' \<Longrightarrow>
   length (my_pat st') + (if n_tokens st' \<noteq> 0 then 1 else 0)
     \<le> length (my_pat st) + (if n_tokens st \<noteq> 0 then 1 else 0) + 1"
  by (auto simp: hybrid_step_def split: if_splits)

lemma hybrid_loop_writes:
  "hybrid_loop w st s = Inr st' \<Longrightarrow>
   length (my_pat st') + (if n_tokens st' \<noteq> 0 then 1 else 0)
     \<le> length (my_pat st) + (if n_tokens st \<noteq> 0 then 1 else 0) + length s"
proof (induction s arbitrary: st)
  case Nil
  then show ?case by simp
next
  case (Cons c cs)
  from Cons.prems obtain st1 where s: "hybrid_step w st c = Inr st1"
    and r: "hybrid_loop w st1 cs = Inr st'"
    by (auto split: sum.splits)
  from hybrid_step_writes[OF s] Cons.IH[OF r] show ?case by simp
qed

lemma hybrid_to_wildcard_length:
  "hybrid_to_wildcard w s = Inr out \<Longrightarrow> length out \<le> length s"
proof -
  assume a: "hybrid_to_wildcard w s = Inr out"
  then obtain st' where l: "hybrid_loop w \<lparr>tokens = [CHR 0x00, CHR 0x00], n_tokens = 0,
                          prev_was_wildcard = False, my_pat = []\<rparr> s = Inr st'"
    and o: "out = (if n_tokens st' \<noteq> 0
               then my_pat st' @ [word_of_int (strtoul16 (c_str (tokens st')))]
               else my_pat st')"
    by (auto simp: hybrid_to_wildcard_def split: sum.splits)
  from hybrid_loop_writes[OF l] o show ?thesis by (simp split: if_splits)
qed

lemma split_from_head:
  "cur \<noteq> [] \<Longrightarrow> \<exists>suf ts. split_from cur s = (cur @ suf) # ts"
proof (induction s arbitrary: cur)
  case Nil
  then show ?case by simp
next
  case (Cons c cs)
  show ?case
  proof (cases "c = CHR '' ''")
    case True
    then show ?thesis using Cons.prems by simp
  next
    case False
    have "\<exists>suf ts. split_from (cur @ [c]) cs = ((cur @ [c]) @ suf) # ts"
      by (rule Cons.IH) simp
    then obtain suf ts where "split_from (cur @ [c]) cs = (cur @ [c] @ suf) # ts" by auto
    then show ?thesis using False by auto
  qed
qed

lemma hybrid_loop_fits:
  "n_tokens st = length (filter (\<lambda>c. c \<noteq> CHR ''?'') cur) \<Longrightarrow>
   list_all (\<lambda>t. length (filter (\<lambda>c. c \<noteq> CHR ''?'') t) \<le> 2) (split_from cur s) \<Longrightarrow>
   \<exists>st'. hybrid_loop w st s = Inr st'"
proof (induction s arbitrary: st cur)
  case Nil
  then show ?case by simp
next
  case (Cons c cs)
  let ?nq = "\<lambda>t. length (filter (\<lambda>c. c \<noteq> CHR ''?'') t)"
  consider (sp) "c = CHR '' ''" | (qm) "c = CHR ''?''" | (ot) "c \<noteq> CHR '' ''" "c \<noteq> CHR ''?''"
    by blast
  then show ?case
  proof cases
    case sp
    obtain st' where s: "hybrid_step w st c = Inr st'" "n_tokens st' = 0"
      using sp by (cases "n_tokens st = 0") (auto simp: hybrid_step_def)
    have "list_all (\<lambda>t. ?nq t \<le> 2) (split_from [] cs)"
      using Cons.prems(2) sp by (auto split: if_splits)
    with s Cons.IH[of st' "[]"] show ?thesis by auto
  next
    case qm
    obtain st' where s: "hybrid_step w st c = Inr st'" "n_tokens st' = n_tokens st"
      using qm by (cases "prev_was_wildcard st") (auto simp: hybrid_step_def)
    have "list_all (\<lambda>t. ?nq t \<le> 2) (split_from (cur @ [c]) cs)"
      using Cons.prems(2) qm by auto
    moreover have "n_tokens st' = ?nq (cur @ [c])" using s qm Cons.prems(1) by simp
    ultimately show ?thesis using s Cons.IH[of st' "cur @ [c]"] by auto
  next
    case ot
    have all: "list_all (\<lambda>t. ?nq t \<le> 2) (split_from (cur @ [c]) cs)"
      using Cons.prems(2) ot by auto
    obtain suf ts where h: "split_from (cur @ [c]) cs = ((cur @ [c]) @ suf) # ts"
      using split_from_head[of "cur @ [c]" cs] by auto
    from all h have "?nq ((cur @ [c]) @ suf) \<le> 2" by simp
    then have "?nq cur + 1 \<le> 2" using ot by simp
    then have lt: "n_tokens st < 2" using Cons.prems(1) by simp
    obtain st' where s: "hybrid_step w st c = Inr st'" "n_tokens st' = n_tokens st + 1"
      using ot lt by (auto simp: hybrid_step_def)
    have "n_tokens st' = ?nq (cur @ [c])" using s ot Cons.prems(1) by simp
    with all s Cons.IH[of st' "cur @ [c]"] show ?thesis by auto
  qed
qed

text \<open>
  Claim C3, as the header has it: the hybrid constructor does not examine its tokens.
  Every string that fits the two-character buffer yields a signature, whether or not
  its tokens are hexadecimal; a token that is not is stored as the value \<^verbatim>\<open>strtoul\<close>
  gives it.
\<close>

theorem hybrid_accepts_any_token:
  assumes "tokens_fit s"
  shows "\<exists>sig. memory_signature_hybrid s = Inr sig"
proof -
  let ?st0 = "\<lparr>tokens = [CHR 0x00, CHR 0x00], n_tokens = 0,
               prev_was_wildcard = False, my_pat = []\<rparr>"
  have "\<exists>st'. hybrid_loop 0 ?st0 s = Inr st'"
    using assms by (intro hybrid_loop_fits[of _ "[]"]) (simp_all add: tokens_fit_def split_tokens_def)
  then show ?thesis
    by (auto simp: memory_signature_hybrid_def find_wildcard_hybrid_zero hybrid_to_wildcard_def)
qed

theorem hybrid_accepts_any_token_witness:
  "tokens_fit ''zz 0g'' \<and> (\<exists>sig. memory_signature_hybrid ''zz 0g'' = Inr sig)"
proof -
  have h: "tokens_fit ''zz 0g''" by code_simp
  from h hybrid_accepts_any_token[OF h] show ?thesis by (intro conjI)
qed

text \<open>
  Claim C3 as the specification states it: a string with a token that is neither
  hexadecimal nor a run of \<^verbatim>\<open>?\<close> is rejected and no signature is created. The text
  \<^verbatim>\<open>zz\<close> yields the signature of the single literal byte \<open>0\<close>.
\<close>

theorem malformed_token_accepted:
  "memory_signature_hybrid ''zz'' = Inr \<lparr>pattern = [0], wildcard = 0\<rparr>"
  by code_simp

lemma token_kinds_disjoint: "is_wildcard_token t \<Longrightarrow> \<not> is_byte_token t"
  by (cases t) (auto simp: is_wildcard_token_def is_byte_token_def)

lemma prefix_ok:
  assumes "list_all token_ok (split_from cur s)"
  shows "cur = [] \<or> is_wildcard_token cur \<or> is_byte_token cur"
proof (cases "cur = []")
  case True
  then show ?thesis by simp
next
  case False
  then obtain suf ts where h: "split_from cur s = (cur @ suf) # ts"
    using split_from_head[of cur s] by auto
  with assms have "token_ok (cur @ suf)" by simp
  then consider "is_wildcard_token (cur @ suf)" | "is_byte_token (cur @ suf)"
    by (auto simp: token_ok_def)
  then show ?thesis
  proof cases
    case 1
    then have "is_wildcard_token cur" using False by (simp add: is_wildcard_token_def)
    then show ?thesis by simp
  next
    case 2
    then have "length cur + length suf = 1 \<or> length cur + length suf = 2"
      and na: "list_all (\<lambda>c. c \<noteq> CHR ''?'') cur"
      by (simp_all add: is_byte_token_def)
    moreover have "0 < length cur" using False by simp
    ultimately have "length cur = 1 \<or> length cur = 2" by arith
    with na have "is_byte_token cur" by (simp add: is_byte_token_def)
    then show ?thesis by simp
  qed
qed

lemma tracks_c_str:
  "tracks cur st \<Longrightarrow> is_byte_token cur \<Longrightarrow> c_str (tokens st) = c_str cur"
proof -
  assume t: "tracks cur st" and b: "is_byte_token cur"
  from b have ne: "cur \<noteq> []" and nw: "\<not> is_wildcard_token cur"
    using token_kinds_disjoint by (auto simp: is_byte_token_def)
  from t ne nw have l: "length (tokens st) = 2" and tk: "take (length cur) (tokens st) = cur"
    and one: "length cur = 1 \<longrightarrow> tokens st ! 1 = CHR 0x00"
    by (simp_all add: tracks_def)
  from l obtain a b' where ab: "tokens st = [a, b']"
    by (cases "tokens st"; cases "tl (tokens st)") auto
  from b consider "length cur = 1" | "length cur = 2" by (auto simp: is_byte_token_def)
  then show ?thesis
  proof cases
    case 1
    with tk ab one show ?thesis by (auto simp: c_str_def)
  next
    case 2
    with tk ab show ?thesis by simp
  qed
qed

lemma step_space:
  assumes "tracks cur st" and "cur = [] \<or> is_wildcard_token cur \<or> is_byte_token cur"
  shows "\<exists>st'. hybrid_step w st (CHR '' '') = Inr st' \<and> tracks [] st' \<and>
           my_pat st' = my_pat st @ (if is_byte_token cur then [token_byte w cur] else [])"
proof -
  consider (e) "cur = []" | (q) "cur \<noteq> []" "is_wildcard_token cur"
    | (b) "cur \<noteq> []" "\<not> is_wildcard_token cur" "is_byte_token cur"
    using assms(2) by blast
  then show ?thesis
  proof cases
    case e
    then show ?thesis using assms(1)
      by (auto simp: tracks_def hybrid_step_def is_byte_token_def)
  next
    case q
    then show ?thesis using assms(1) token_kinds_disjoint[of cur]
      by (auto simp: tracks_def hybrid_step_def)
  next
    case b
    have n: "n_tokens st \<noteq> 0" using b assms(1) by (auto simp: tracks_def)
    have "token_byte w cur = word_of_int (strtoul16 (c_str (tokens st)))"
      using b tracks_c_str[OF assms(1) b(3)] by (simp add: token_byte_def)
    then show ?thesis using b n assms(1)
      by (auto simp: tracks_def hybrid_step_def)
  qed
qed

lemma step_question:
  assumes "tracks cur st" and "cur = [] \<or> is_wildcard_token cur"
  shows "\<exists>st'. hybrid_step w st (CHR ''?'') = Inr st' \<and> tracks (cur @ [CHR ''?'']) st' \<and>
           my_pat st' = my_pat st @ (if cur = [] then [w] else [])"
proof -
  have wq: "is_wildcard_token (cur @ [CHR ''?''])"
    using assms(2) by (auto simp: is_wildcard_token_def)
  show ?thesis
  proof (cases "cur = []")
    case True
    then show ?thesis using assms(1) wq
      by (auto simp: tracks_def hybrid_step_def)
  next
    case False
    with assms(2) have "is_wildcard_token cur" by simp
    then show ?thesis using False assms(1) wq
      by (auto simp: tracks_def hybrid_step_def)
  qed
qed

lemma step_other:
  assumes "tracks cur st" and "c \<noteq> CHR '' ''" and "c \<noteq> CHR ''?''"
    and "cur = [] \<or> (is_byte_token cur \<and> length cur = 1)"
  shows "\<exists>st'. hybrid_step w st c = Inr st' \<and> tracks (cur @ [c]) st' \<and> my_pat st' = my_pat st"
proof -
  have nw: "\<not> is_wildcard_token (cur @ [c])"
    using assms(3) by (auto simp: is_wildcard_token_def)
  from assms(1) obtain a b where ab: "tokens st = [a, b]"
    by (cases "tokens st"; cases "tl (tokens st)") (auto simp: tracks_def)
  show ?thesis
  proof (cases "cur = []")
    case True
    then show ?thesis using assms(1,2,3) nw ab
      by (auto simp: tracks_def hybrid_step_def)
  next
    case False
    with assms(4) have b: "is_byte_token cur" "length cur = 1" by auto
    then obtain x where x: "cur = [x]" by (cases cur) auto
    have "\<not> is_wildcard_token cur" using b token_kinds_disjoint by blast
    then show ?thesis using assms(1,2,3) nw ab x
      by (auto simp: tracks_def hybrid_step_def)
  qed
qed

lemma pending_space:
  assumes "cur = [] \<or> is_wildcard_token cur \<or> is_byte_token cur"
  shows "map (token_byte w) (pending cur (CHR '' '' # cs)) =
           (if is_byte_token cur then [token_byte w cur] else []) @
           map (token_byte w) (pending [] cs)"
proof -
  have e: "\<not> is_wildcard_token []" "\<not> is_byte_token []"
    by (simp_all add: is_wildcard_token_def is_byte_token_def)
  consider (e) "cur = []" | (q) "cur \<noteq> []" "is_wildcard_token cur"
    | (b) "cur \<noteq> []" "\<not> is_wildcard_token cur" "is_byte_token cur"
    using assms by blast
  then show ?thesis
  proof cases
    case e
    then show ?thesis using \<open>\<not> is_wildcard_token []\<close> \<open>\<not> is_byte_token []\<close>
      by (simp add: pending_def)
  next
    case q
    then show ?thesis using token_kinds_disjoint[of cur] e by (simp add: pending_def)
  next
    case b
    then show ?thesis using e by (simp add: pending_def)
  qed
qed

lemma pending_question:
  assumes "list_all token_ok (split_from (cur @ [CHR ''?'']) cs)"
  shows "(cur = [] \<or> is_wildcard_token cur) \<and>
         map (token_byte w) (pending cur (CHR ''?'' # cs)) =
           (if cur = [] then [w] else []) @
           map (token_byte w) (pending (cur @ [CHR ''?'']) cs)"
proof -
  obtain suf ts where h: "split_from (cur @ [CHR ''?'']) cs = ((cur @ [CHR ''?'']) @ suf) # ts"
    using split_from_head[of "cur @ [CHR ''?'']" cs] by auto
  with assms have ok: "token_ok ((cur @ [CHR ''?'']) @ suf)" by simp
  then have wt: "is_wildcard_token ((cur @ [CHR ''?'']) @ suf)"
    by (auto simp: token_ok_def is_byte_token_def)
  then have c: "cur = [] \<or> is_wildcard_token cur"
    by (auto simp: is_wildcard_token_def)
  have wq: "is_wildcard_token (cur @ [CHR ''?''])"
    using c by (auto simp: is_wildcard_token_def)
  have e: "\<not> is_wildcard_token []" by (simp add: is_wildcard_token_def)
  show ?thesis
  proof (cases "cur = []")
    case True
    then show ?thesis using h wt wq e by (simp add: pending_def token_byte_def)
  next
    case False
    with c have "is_wildcard_token cur" by simp
    then show ?thesis using False c wq by (simp add: pending_def)
  qed
qed

lemma pending_other:
  assumes "list_all token_ok (split_from (cur @ [c]) cs)" and "c \<noteq> CHR '' ''" and "c \<noteq> CHR ''?''"
  shows "(cur = [] \<or> (is_byte_token cur \<and> length cur = 1)) \<and>
         pending cur (c # cs) = pending (cur @ [c]) cs"
proof -
  obtain suf ts where h: "split_from (cur @ [c]) cs = ((cur @ [c]) @ suf) # ts"
    using split_from_head[of "cur @ [c]" cs] by auto
  with assms have ok: "token_ok ((cur @ [c]) @ suf)" by simp
  then have bt: "is_byte_token ((cur @ [c]) @ suf)"
    using assms(3) by (auto simp: token_ok_def is_wildcard_token_def)
  then have c: "cur = [] \<or> (is_byte_token cur \<and> length cur = 1)"
    by (cases cur) (auto simp: is_byte_token_def)
  have "\<not> is_wildcard_token cur"
    using c token_kinds_disjoint[of cur] by (auto simp: is_wildcard_token_def)
  moreover have "\<not> is_wildcard_token (cur @ [c])"
    using assms(3) by (auto simp: is_wildcard_token_def)
  ultimately show ?thesis using c assms(2) by (simp add: pending_def)
qed

lemma hybrid_loop_tokens:
  "tracks cur st \<Longrightarrow> list_all token_ok (split_from cur s) \<Longrightarrow>
   \<exists>st'. hybrid_loop w st s = Inr st' \<and>
         flushed st' = my_pat st @ map (token_byte w) (pending cur s)"
proof (induction s arbitrary: cur st)
  case Nil
  have p: "cur = [] \<or> is_wildcard_token cur \<or> is_byte_token cur"
    using prefix_ok[OF Nil.prems(2)] .
  have e: "\<not> is_wildcard_token []" by (simp add: is_wildcard_token_def)
  consider (e) "cur = []" | (q) "cur \<noteq> []" "is_wildcard_token cur"
    | (b) "cur \<noteq> []" "\<not> is_wildcard_token cur" "is_byte_token cur"
    using p by blast
  then show ?case
  proof cases
    case e
    then show ?thesis using Nil.prems(1) \<open>\<not> is_wildcard_token []\<close>
      by (simp add: tracks_def flushed_def pending_def)
  next
    case q
    then show ?thesis using Nil.prems(1)
      by (simp add: tracks_def flushed_def pending_def)
  next
    case b
    have "n_tokens st \<noteq> 0" using b Nil.prems(1) by (auto simp: tracks_def)
    then show ?thesis using b tracks_c_str[OF Nil.prems(1) b(3)]
      by (simp add: flushed_def pending_def token_byte_def)
  qed
next
  case (Cons c cs)
  have p: "cur = [] \<or> is_wildcard_token cur \<or> is_byte_token cur"
    using prefix_ok[OF Cons.prems(2)] .
  consider (sp) "c = CHR '' ''" | (qm) "c = CHR ''?''" | (ot) "c \<noteq> CHR '' ''" "c \<noteq> CHR ''?''"
    by blast
  then show ?case
  proof cases
    case sp
    obtain st' where s: "hybrid_step w st c = Inr st'" "tracks [] st'"
      "my_pat st' = my_pat st @ (if is_byte_token cur then [token_byte w cur] else [])"
      using step_space[OF Cons.prems(1) p, of w] sp by auto
    have "list_all token_ok (split_from [] cs)"
      using Cons.prems(2) sp by (auto split: if_splits)
    from Cons.IH[OF s(2) this] obtain st'' where
      r: "hybrid_loop w st' cs = Inr st''"
         "flushed st'' = my_pat st' @ map (token_byte w) (pending [] cs)"
      by auto
    show ?thesis using s r pending_space[OF p, of w cs] sp by simp
  next
    case qm
    have all: "list_all token_ok (split_from (cur @ [CHR ''?'']) cs)"
      using Cons.prems(2) qm by simp
    note pq = pending_question[OF all, of w]
    obtain st' where s: "hybrid_step w st c = Inr st'" "tracks (cur @ [CHR ''?'']) st'"
      "my_pat st' = my_pat st @ (if cur = [] then [w] else [])"
      using step_question[OF Cons.prems(1), of w] pq qm by auto
    from Cons.IH[OF s(2) all] obtain st'' where
      r: "hybrid_loop w st' cs = Inr st''"
         "flushed st'' = my_pat st' @ map (token_byte w) (pending (cur @ [CHR ''?'']) cs)"
      by auto
    show ?thesis using s r pq qm by simp
  next
    case ot
    have all: "list_all token_ok (split_from (cur @ [c]) cs)"
      using Cons.prems(2) ot by simp
    note po = pending_other[OF all ot]
    obtain st' where s: "hybrid_step w st c = Inr st'" "tracks (cur @ [c]) st'"
      "my_pat st' = my_pat st"
      using step_other[OF Cons.prems(1) ot, of w] po by auto
    from Cons.IH[OF s(2) all] obtain st'' where
      r: "hybrid_loop w st' cs = Inr st''"
         "flushed st'' = my_pat st' @ map (token_byte w) (pending (cur @ [c]) cs)"
      by auto
    show ?thesis using s r po by simp
  qed
qed

text \<open>
  On a token of one or two hexadecimal digits the conversion is the value of the digits
  in base 16.
\<close>

lemma hex_digit_plain:
  "hex_digit a = Some x \<Longrightarrow>
   \<not> isspace a \<and> a \<noteq> CHR ''-'' \<and> a \<noteq> CHR ''+'' \<and> a \<noteq> CHR 0x00 \<and> a \<noteq> CHR ''?'' \<and> a \<noteq> CHR '' ''"
  by (auto simp: hex_digit_def isspace_def Let_def split: if_splits)

lemma strtoul16_one_digit:
  "hex_digit a = Some x \<Longrightarrow> strtoul16 (c_str [a]) = int x"
  using hex_digit_plain[of a x] by (simp add: strtoul16_def c_str_def)

lemma strtoul16_two_digits:
  "hex_digit a = Some x \<Longrightarrow> hex_digit b = Some y \<Longrightarrow>
   strtoul16 (c_str [a, b]) = int (16 * x + y)"
  using hex_digit_plain[of a x] hex_digit_plain[of b y] by (simp add: strtoul16_def c_str_def)

lemma token_byte_hex:
  "hex_digit a = Some x \<Longrightarrow> hex_digit b = Some y \<Longrightarrow>
   token_byte w [a] = of_nat x \<and> token_byte w [a, b] = of_nat (16 * x + y)"
  using hex_digit_plain[of a x] strtoul16_one_digit[of a x] strtoul16_two_digits[of a x b y]
  by (simp add: token_byte_def is_wildcard_token_def)

text \<open>
  Claim C5, as the header has it: for a hybrid string in which every token is a run of
  \<^verbatim>\<open>?\<close> or has one or two characters other than \<^verbatim>\<open>?\<close>, the parsed pattern has one
  byte for each token, in order: the wildcard for a run of \<^verbatim>\<open>?\<close> of any length, and
  the converted value for any other token; a last token without a space behind it is
  converted at the end of the string.
\<close>

theorem hybrid_one_byte_per_token:
  assumes "well_formed s"
  shows "hybrid_to_wildcard w s = Inr (map (token_byte w) (split_tokens s)) \<and>
         (\<exists>out. hybrid_to_wildcard w s = Inr out \<and> length out = length (split_tokens s))"
proof -
  let ?st0 = "\<lparr>tokens = [CHR 0x00, CHR 0x00], n_tokens = 0,
               prev_was_wildcard = False, my_pat = []\<rparr>"
  have t: "tracks [] ?st0" by (simp add: tracks_def)
  have a: "list_all token_ok (split_from [] s)"
    using assms by (simp add: well_formed_def split_tokens_def)
  have e: "\<not> is_wildcard_token []" by (simp add: is_wildcard_token_def)
  from hybrid_loop_tokens[OF t a, of w] obtain st' where
    r: "hybrid_loop w ?st0 s = Inr st'"
       "flushed st' = my_pat ?st0 @ map (token_byte w) (pending [] s)"
    by auto
  have "hybrid_to_wildcard w s = Inr (map (token_byte w) (split_tokens s))"
    using r e by (simp add: hybrid_to_wildcard_def flushed_def pending_def split_tokens_def)
  then show ?thesis by simp
qed

theorem hybrid_one_byte_per_token_witness:
  "well_formed ''? ?? ???'' \<and>
   hybrid_to_wildcard 0 ''? ?? ???'' = Inr [0, 0, 0] \<and>
   (\<exists>out. hybrid_to_wildcard 0 ''? ?? ???'' = Inr out \<and> length out = 3)"
proof -
  have h: "well_formed ''? ?? ???''" by code_simp
  have v: "map (token_byte 0) (split_tokens ''? ?? ???'') = [0, 0, 0]" by code_simp
  have n: "length (split_tokens ''? ?? ???'') = 3" by code_simp
  from hybrid_one_byte_per_token[OF h, of 0] show ?thesis
    unfolding v n using h by (intro conjI) simp_all
qed

text \<open>
  Claim C5 as the specification states it: for every hybrid string the pattern has as
  many bytes as the string has tokens. The text \<^verbatim>\<open>1?\<close> is one token and yields two
  bytes, the wildcard first.
\<close>

theorem mixed_token_two_bytes:
  "hybrid_to_wildcard 0 ''1?'' = Inr [0, 1] \<and> split_tokens ''1?'' = [''1?'']"
  by (intro conjI; code_simp)

end
